theory Spec2Isabelle
  imports Complex_Main "HOL-Library.Word" "HOL-Library.Multiset"
begin

section \<open>Python text primitives used by the downloader\<close>

text \<open>
  A Python \<open>str\<close> is modelled as a \<open>string\<close>; each \<open>char\<close> stands for the code
  point of the same number (0 to 255), so \<open>length\<close> is Python's \<open>len\<close>.
  \<open>py_isspace\<close> is the set of code points below 256 that \<open>str.strip()\<close> removes,
  \<open>py_lower_char\<close> is \<open>str.lower()\<close> on one such code point.
\<close>

definition py_isspace :: "char \<Rightarrow> bool" where
  "py_isspace c =
     (let n = (of_char c :: nat)
      in (9 \<le> n \<and> n \<le> 13) \<or> (28 \<le> n \<and> n \<le> 32) \<or> n = 133 \<or> n = 160)"

definition py_lower_char :: "char \<Rightarrow> char" where
  "py_lower_char c =
     (let n = (of_char c :: nat)
      in if (65 \<le> n \<and> n \<le> 90) \<or> (192 \<le> n \<and> n \<le> 222 \<and> n \<noteq> 215)
         then char_of (n + 32) else c)"

definition py_lower :: "string \<Rightarrow> string" where
  "py_lower s = map py_lower_char s"

definition py_lstrip :: "string \<Rightarrow> string" where
  "py_lstrip s = dropWhile py_isspace s"

definition py_rstrip :: "string \<Rightarrow> string" where
  "py_rstrip s = rev (dropWhile py_isspace (rev s))"

definition py_strip :: "string \<Rightarrow> string" where
  "py_strip s = py_rstrip (py_lstrip s)"

fun startswith :: "string \<Rightarrow> string \<Rightarrow> bool" where
  "startswith s [] = True"
| "startswith [] (p # ps) = False"
| "startswith (c # cs) (p # ps) = (c = p \<and> startswith cs ps)"

text \<open>\<open>s.lstrip('.')\<close>: every leading dot is removed.\<close>

definition lstrip_dots :: "string \<Rightarrow> string" where
  "lstrip_dots s = dropWhile (\<lambda>c. c = CHR ''.'') s"

text \<open>\<open>s.split(';')[0]\<close>: the text before the first semicolon.\<close>

definition split_semicolon_first :: "string \<Rightarrow> string" where
  "split_semicolon_first s = takeWhile (\<lambda>c. c \<noteq> CHR '';'') s"

text \<open>\<open>str(n)\<close> for a Python integer: decimal digits, with a minus sign below zero.\<close>

definition digit_char :: "nat \<Rightarrow> char" where
  "digit_char d = char_of (48 + d)"

function digits10 :: "nat \<Rightarrow> string" where
  "digits10 n = (if n < 10 then [digit_char n] else digits10 (n div 10) @ [digit_char (n mod 10)])"
  by pat_completeness auto
termination
  by (relation "measure (\<lambda>n. n)") auto

declare digits10.simps [simp del]

definition str_int :: "int \<Rightarrow> string" where
  "str_int i = (if i < 0 then CHR ''-'' # digits10 (nat (- i)) else digits10 (nat i))"

section \<open>URL Extractor\<close>

text \<open>
  A data frame is its list of columns in \<open>df.columns\<close> order; a column is its name
  and its cells from the first row to the last, each cell being the text that
  \<open>df[col].astype(str).fillna("")\<close> yields for it.
\<close>

record dataframe =
  columns :: "(string \<times> string list) list"

definition is_http_url :: "string \<Rightarrow> bool" where
  "is_http_url val =
     (startswith (py_lower val) ''http://'' \<or> startswith (py_lower val) ''https://'')"

text \<open>The inner loop \<open>for val in series\<close>, with the list \<open>urls\<close> passed through.\<close>

fun scan_series :: "string list \<Rightarrow> string list \<Rightarrow> string list" where
  "scan_series [] urls = urls"
| "scan_series (val # series) urls =
     (let val' = py_strip val
      in if is_http_url val' then scan_series series (urls @ [val'])
         else scan_series series urls)"

text \<open>The outer loop \<open>for col in df.columns\<close>.\<close>

fun scan_columns :: "(string \<times> string list) list \<Rightarrow> string list \<Rightarrow> string list" where
  "scan_columns [] urls = urls"
| "scan_columns (col # cols) urls = scan_columns cols (scan_series (snd col) urls)"

definition find_urls_in_df :: "dataframe \<Rightarrow> string list" where
  "find_urls_in_df df = scan_columns (columns df) []"

text \<open>\<open>[u for u in urls if u and len(u) > 6]\<close>\<close>

definition length_filter :: "string list \<Rightarrow> string list" where
  "length_filter urls = filter (\<lambda>u. u \<noteq> [] \<and> 6 < length u) urls"

text \<open>
  \<open>list(dict.fromkeys(urls))\<close>: the keys of an insertion-ordered dictionary, kept as the
  list of keys in insertion order; storing a key that is present leaves its place.
\<close>

fun dict_fromkeys :: "'k list \<Rightarrow> 'k list \<Rightarrow> 'k list" where
  "dict_fromkeys d [] = d"
| "dict_fromkeys d (k # ks) = dict_fromkeys (if k \<in> set d then d else d @ [k]) ks"

definition unique_urls :: "dataframe \<Rightarrow> string list" where
  "unique_urls df = dict_fromkeys [] (length_filter (find_urls_in_df df))"

text \<open>The cells in the order the two loops read them: column after column.\<close>

definition cells_by_column :: "dataframe \<Rightarrow> string list" where
  "cells_by_column df = concat (map snd (columns df))"

text \<open>
  The cells read row after row, as the words ``row-major'' of the specification
  describe a traversal (for a rectangular table).
\<close>

definition cells_by_row :: "dataframe \<Rightarrow> string list" where
  "cells_by_row df = concat (transpose (map snd (columns df)))"

text \<open>Position of the first occurrence of a value in a list.\<close>

fun first_index :: "'a list \<Rightarrow> 'a \<Rightarrow> nat" where
  "first_index [] x = 0"
| "first_index (y # ys) x = (if x = y then 0 else Suc (first_index ys x))"

text \<open>
  Reference function for the order of deduplication: keep the first occurrence of every
  value and drop the later ones.
\<close>

fun dedup_first :: "'a list \<Rightarrow> 'a list" where
  "dedup_first [] = []"
| "dedup_first (x # xs) = x # removeAll x (dedup_first xs)"

definition table_2x2 :: dataframe where
  "table_2x2 = \<lparr> columns =
     [(''photo'', [''http://k/a.jpg'', '' HTTPS://k/b.jpg '']),
      (''note'',  [''https://k/c.png'', ''http://k/a.jpg''])] \<rparr>"

section \<open>Content-Type Sniffer\<close>

type_synonym bytes = "8 word list"

datatype py_exception = ValueError string

fun exception_str :: "py_exception \<Rightarrow> string" where
  "exception_str (ValueError msg) = msg"

text \<open>
  The three library calls of \<open>detect_extension\<close> are parameters of the model:
  \<^item> \<open>filetype_guess\<close>: \<open>filetype.guess(content)\<close>, giving the \<open>extension\<close> of the matched
    kind, or \<open>None\<close>;
  \<^item> \<open>guess_extension\<close>: \<open>mimetypes.guess_extension(type)\<close>, an extension with its dot,
    or \<open>None\<close>;
  \<^item> \<open>urlparse_path\<close>: \<open>urlparse(url).path\<close>, or the \<open>ValueError\<close> that \<open>urlparse\<close>
    raises on a malformed authority.
\<close>

record libs =
  filetype_guess :: "bytes \<Rightarrow> string option"
  guess_extension :: "string \<Rightarrow> string option"
  urlparse_path :: "string \<Rightarrow> py_exception + string"

text \<open>\<open>s.rfind(c)\<close>: the highest index of \<open>c\<close> in \<open>s\<close>, or \<open>-1\<close>.\<close>

definition rfind :: "char \<Rightarrow> string \<Rightarrow> int" where
  "rfind c s =
     (if c \<in> set s
      then int (length s) - 1 - int (length (takeWhile (\<lambda>x. x \<noteq> c) (rev s)))
      else - 1)"

text \<open>
  \<open>os.path.splitext\<close> of \<open>posixpath\<close>: the extension starts at the last dot of the last
  path segment, unless only dots precede it in that segment. The loop is the one that
  skips the leading dots.
\<close>

function skip_leading_dots :: "string \<Rightarrow> nat \<Rightarrow> nat \<Rightarrow> string \<times> string" where
  "skip_leading_dots p dotIndex filenameIndex =
     (if filenameIndex < dotIndex
      then (if take 1 (drop filenameIndex p) \<noteq> ''.''
            then (take dotIndex p, drop dotIndex p)
            else skip_leading_dots p dotIndex (filenameIndex + 1))
      else (p, []))"
  by pat_completeness auto
termination
  by (relation "measure (\<lambda>(p, dotIndex, filenameIndex). dotIndex - filenameIndex)") auto

declare skip_leading_dots.simps [simp del]

definition splitext :: "string \<Rightarrow> string \<times> string" where
  "splitext p =
     (let sepIndex = rfind CHR ''/'' p;
          dotIndex = rfind CHR ''.'' p
      in if dotIndex > sepIndex
         then skip_leading_dots p (nat dotIndex) (nat (sepIndex + 1))
         else (p, []))"

definition detect_extension :: "libs \<Rightarrow> bytes \<Rightarrow> string \<Rightarrow> string \<Rightarrow> py_exception + string" where
  "detect_extension L content content_type url =
     (case filetype_guess L content of
        Some extension \<Rightarrow> Inr extension
      | None \<Rightarrow>
          (case (if content_type \<noteq> []
                 then guess_extension L (py_strip (split_semicolon_first content_type))
                 else None) of
             Some guessed \<Rightarrow>
               if guessed \<noteq> [] then Inr (lstrip_dots guessed) else
                 (case urlparse_path L url of
                    Inl e \<Rightarrow> Inl e
                  | Inr path \<Rightarrow>
                      (let ext2 = snd (splitext path)
                       in if ext2 \<noteq> [] \<and> length ext2 \<le> 6 then Inr (lstrip_dots ext2)
                          else Inr ''jpg''))
           | None \<Rightarrow>
               (case urlparse_path L url of
                  Inl e \<Rightarrow> Inl e
                | Inr path \<Rightarrow>
                    (let ext2 = snd (splitext path)
                     in if ext2 \<noteq> [] \<and> length ext2 \<le> 6 then Inr (lstrip_dots ext2)
                        else Inr ''jpg''))))"

subsection \<open>A library environment for worked examples\<close>

text \<open>
  Values of the three library calls on ordinary inputs: three of the signatures that
  \<open>filetype\<close> knows, three entries of the media-type table, and the path of a URL of the
  shape \<open>scheme://authority/path;params?query#fragment\<close>, with the \<open>ValueError\<close> for an
  authority whose square brackets do not pair.
\<close>

definition sample_filetype_guess :: "bytes \<Rightarrow> string option" where
  "sample_filetype_guess buf =
     (if take 3 buf = [0xFF, 0xD8, 0xFF] then Some ''jpg''
      else if take 4 buf = [0x89, 0x50, 0x4E, 0x47] then Some ''png''
      else if take 3 buf = [0x47, 0x49, 0x46] then Some ''gif''
      else None)"

definition sample_guess_extension :: "string \<Rightarrow> string option" where
  "sample_guess_extension t =
     (if py_lower t = ''image/jpeg'' then Some ''.jpg''
      else if py_lower t = ''image/png'' then Some ''.png''
      else if py_lower t = ''text/html'' then Some ''.html''
      else None)"

definition sample_urlparse_path :: "string \<Rightarrow> py_exception + string" where
  "sample_urlparse_path url =
     (let rest = (if CHR '':'' \<in> set url then drop 1 (dropWhile (\<lambda>c. c \<noteq> CHR '':'') url) else url);
          is_delim = (\<lambda>c. c = CHR ''/'' \<or> c = CHR ''?'' \<or> c = CHR ''#'');
          netloc = (if startswith rest ''//'' then takeWhile (\<lambda>c. \<not> is_delim c) (drop 2 rest) else []);
          rest2 = (if startswith rest ''//'' then dropWhile (\<lambda>c. \<not> is_delim c) (drop 2 rest) else rest);
          p = takeWhile (\<lambda>c. c \<noteq> CHR ''?'') (takeWhile (\<lambda>c. c \<noteq> CHR ''#'') rest2);
          i = nat (rfind CHR ''/'' p + 1)
      in if (CHR ''['' \<in> set netloc) \<noteq> (CHR '']'' \<in> set netloc)
         then Inl (ValueError ''Invalid IPv6 URL'')
         else Inr (take i p @ takeWhile (\<lambda>c. c \<noteq> CHR '';'') (drop i p)))"

definition sample_libs :: libs where
  "sample_libs = \<lparr> filetype_guess = sample_filetype_guess,
                   guess_extension = sample_guess_extension,
                   urlparse_path = sample_urlparse_path \<rparr>"

definition png_2x2 :: bytes where
  "png_2x2 = [0x89, 0x50, 0x4E, 0x47, 0x0D, 0x0A, 0x1A, 0x0A, 0, 0, 0, 0x0D]"

section \<open>Fetcher\<close>

text \<open>
  What one \<open>session.get(url, stream=True, timeout=timeout)\<close> followed by the read of
  \<open>resp.content\<close> can yield: a response (status code, \<open>Content-Type\<close> header if any,
  body), or an exception with its message. The session is a function from the attempt
  number to that result.
\<close>

datatype get_result = Response int "string option" bytes | Raises string

text \<open>
  What \<open>with open(final_path, 'wb') as f: f.write(content)\<close> can yield: the file is
  written in full; \<open>open\<close> raises and no file is made; or the file is opened (made or
  emptied) and the write raises, leaving some bytes in it. The disk is a function from
  the attempt number, the path and the content to that result.
\<close>

datatype write_result = Written | OpenRaises string | WriteRaises string bytes

text \<open>
  The effects of the Fetcher, in the order they happen: a GET, a sleep, a file written
  in full, a file left behind by a write that raised.
\<close>

datatype event = EGet string int | ESleep real | EWrite string bytes | EBroken string bytes

type_synonym outcome = "bool \<times> string option \<times> string option"

text \<open>\<open>os.path.join(a, b)\<close> of \<open>posixpath\<close>, for two components.\<close>

definition os_path_join :: "string \<Rightarrow> string \<Rightarrow> string" where
  "os_path_join a b =
     (if startswith b ''/'' then b
      else if a = [] \<or> last a = CHR ''/'' then a @ b
      else a @ ''/'' @ b)"

text \<open>
  The loop \<open>for attempt in range(max_retries+1)\<close> over the attempts still to make, with
  \<open>last_exc\<close> and the effects so far passed through. Every exception raised inside the
  \<open>try\<close> (by the GET, by \<open>detect_extension\<close>, by \<open>open\<close> or by \<open>write\<close>) is caught, its
  message stored, and the sleep at the end of the loop body follows.
\<close>

fun retry_loop ::
  "libs \<Rightarrow> (nat \<Rightarrow> get_result) \<Rightarrow> (nat \<Rightarrow> string \<Rightarrow> bytes \<Rightarrow> write_result) \<Rightarrow>
   string \<Rightarrow> string \<Rightarrow> string \<Rightarrow> int \<Rightarrow>
   nat list \<Rightarrow> string option \<Rightarrow> event list \<Rightarrow> outcome \<times> event list" where
  "retry_loop L session_get disk url dest_name folder timeout [] last_exc tr =
     ((False, None, last_exc), tr)"
| "retry_loop L session_get disk url dest_name folder timeout (attempt # rest) last_exc tr =
     (case session_get attempt of
        Raises msg \<Rightarrow>
          retry_loop L session_get disk url dest_name folder timeout rest (Some msg)
            (tr @ [EGet url timeout, ESleep (0.5 * (real attempt + 1))])
      | Response status_code header content \<Rightarrow>
          if status_code = 200 then
            (let content_type = (case header of Some v \<Rightarrow> v | None \<Rightarrow> [])
             in case detect_extension L content content_type url of
                  Inr ext \<Rightarrow>
                    (let final_name = dest_name @ ''.'' @ ext;
                         final_path = os_path_join folder final_name
                     in case disk attempt final_path content of
                          Written \<Rightarrow>
                            ((True, Some final_name, None),
                             tr @ [EGet url timeout, EWrite final_path content])
                        | OpenRaises msg \<Rightarrow>
                            retry_loop L session_get disk url dest_name folder timeout rest
                              (Some msg)
                              (tr @ [EGet url timeout, ESleep (0.5 * (real attempt + 1))])
                        | WriteRaises msg left \<Rightarrow>
                            retry_loop L session_get disk url dest_name folder timeout rest
                              (Some msg)
                              (tr @ [EGet url timeout, EBroken final_path left,
                                     ESleep (0.5 * (real attempt + 1))]))
                | Inl e \<Rightarrow>
                    retry_loop L session_get disk url dest_name folder timeout rest
                      (Some (exception_str e))
                      (tr @ [EGet url timeout, ESleep (0.5 * (real attempt + 1))]))
          else
            retry_loop L session_get disk url dest_name folder timeout rest
              (Some (''HTTP '' @ str_int status_code))
              (tr @ [EGet url timeout, ESleep (0.5 * (real attempt + 1))]))"

declare retry_loop.simps(2) [simp del]

definition download_one ::
  "libs \<Rightarrow> (nat \<Rightarrow> get_result) \<Rightarrow> (nat \<Rightarrow> string \<Rightarrow> bytes \<Rightarrow> write_result) \<Rightarrow>
   string \<Rightarrow> string \<Rightarrow> string \<Rightarrow> int \<Rightarrow> int \<Rightarrow> outcome \<times> event list" where
  "download_one L session_get disk url dest_name folder timeout max_retries =
     retry_loop L session_get disk url dest_name folder timeout
       [0..<nat (max_retries + 1)] None []"

subsection \<open>Reading a trace\<close>

fun is_get :: "event \<Rightarrow> bool" where
  "is_get (EGet u t) = True"
| "is_get (ESleep d) = False"
| "is_get (EWrite p c) = False"
| "is_get (EBroken p c) = False"

fun sleeps :: "event list \<Rightarrow> real list" where
  "sleeps [] = []"
| "sleeps (ESleep d # tr) = d # sleeps tr"
| "sleeps (EGet u t # tr) = sleeps tr"
| "sleeps (EWrite p c # tr) = sleeps tr"
| "sleeps (EBroken p c # tr) = sleeps tr"

text \<open>The files written in full.\<close>

fun writes :: "event list \<Rightarrow> (string \<times> bytes) list" where
  "writes [] = []"
| "writes (EWrite p c # tr) = (p, c) # writes tr"
| "writes (EGet u t # tr) = writes tr"
| "writes (ESleep d # tr) = writes tr"
| "writes (EBroken p c # tr) = writes tr"

text \<open>Every file made or changed, written in full or not, with the bytes it is left with.\<close>

fun touched :: "event list \<Rightarrow> (string \<times> bytes) list" where
  "touched [] = []"
| "touched (EWrite p c # tr) = (p, c) # touched tr"
| "touched (EBroken p c # tr) = (p, c) # touched tr"
| "touched (EGet u t # tr) = touched tr"
| "touched (ESleep d # tr) = touched tr"

text \<open>The files left behind by writes that raised after \<open>open\<close>.\<close>

fun broken :: "event list \<Rightarrow> (string \<times> bytes) list" where
  "broken [] = []"
| "broken (EBroken p c # tr) = (p, c) # broken tr"
| "broken (EWrite p c # tr) = broken tr"
| "broken (EGet u t # tr) = broken tr"
| "broken (ESleep d # tr) = broken tr"

text \<open>The files of the store after the file effects of a trace.\<close>

fun files_after :: "(string \<rightharpoonup> bytes) \<Rightarrow> (string \<times> bytes) list \<Rightarrow> (string \<rightharpoonup> bytes)" where
  "files_after fs [] = fs"
| "files_after fs ((p, c) # ws) = files_after (fs(p \<mapsto> c)) ws"

text \<open>
  One attempt read on its own, from the answer \<open>r\<close> of the session and the behaviour
  \<open>dk\<close> of the disk at that attempt: the extension and body when it succeeds (status
  200, an extension resolved, the file written in full); otherwise the message stored
  in \<open>last_exc\<close> and the file the attempt leaves behind, if any.
\<close>

definition attempt_success ::
  "libs \<Rightarrow> string \<Rightarrow> string \<Rightarrow> string \<Rightarrow> get_result \<Rightarrow> (string \<Rightarrow> bytes \<Rightarrow> write_result) \<Rightarrow>
   (string \<times> bytes) option" where
  "attempt_success L url dest_name folder r dk =
     (case r of
        Raises msg \<Rightarrow> None
      | Response status_code header content \<Rightarrow>
          if status_code = 200
          then (case detect_extension L content (case header of Some v \<Rightarrow> v | None \<Rightarrow> []) url of
                  Inr ext \<Rightarrow>
                    (case dk (os_path_join folder (dest_name @ ''.'' @ ext)) content of
                       Written \<Rightarrow> Some (ext, content)
                     | OpenRaises msg \<Rightarrow> None
                     | WriteRaises msg left \<Rightarrow> None)
                | Inl e \<Rightarrow> None)
          else None)"

definition attempt_error ::
  "libs \<Rightarrow> string \<Rightarrow> string \<Rightarrow> string \<Rightarrow> get_result \<Rightarrow> (string \<Rightarrow> bytes \<Rightarrow> write_result) \<Rightarrow>
   string" where
  "attempt_error L url dest_name folder r dk =
     (case r of
        Raises msg \<Rightarrow> msg
      | Response status_code header content \<Rightarrow>
          if status_code = 200
          then (case detect_extension L content (case header of Some v \<Rightarrow> v | None \<Rightarrow> []) url of
                  Inr ext \<Rightarrow>
                    (case dk (os_path_join folder (dest_name @ ''.'' @ ext)) content of
                       Written \<Rightarrow> []
                     | OpenRaises msg \<Rightarrow> msg
                     | WriteRaises msg left \<Rightarrow> msg)
                | Inl e \<Rightarrow> exception_str e)
          else ''HTTP '' @ str_int status_code)"

definition attempt_leftover ::
  "libs \<Rightarrow> string \<Rightarrow> string \<Rightarrow> string \<Rightarrow> get_result \<Rightarrow> (string \<Rightarrow> bytes \<Rightarrow> write_result) \<Rightarrow>
   event list" where
  "attempt_leftover L url dest_name folder r dk =
     (case r of
        Raises msg \<Rightarrow> []
      | Response status_code header content \<Rightarrow>
          if status_code = 200
          then (case detect_extension L content (case header of Some v \<Rightarrow> v | None \<Rightarrow> []) url of
                  Inr ext \<Rightarrow>
                    (case dk (os_path_join folder (dest_name @ ''.'' @ ext)) content of
                       Written \<Rightarrow> []
                     | OpenRaises msg \<Rightarrow> []
                     | WriteRaises msg left \<Rightarrow>
                         [EBroken (os_path_join folder (dest_name @ ''.'' @ ext)) left])
                | Inl e \<Rightarrow> [])
          else [])"

text \<open>
  A failed request as the retry policy names it: an exception, or a status other than
  200.
\<close>

fun http_failure :: "get_result \<Rightarrow> bool" where
  "http_failure (Raises msg) = True"
| "http_failure (Response status_code header content) = (status_code \<noteq> 200)"

fun failure_reason :: "get_result \<Rightarrow> string" where
  "failure_reason (Raises msg) = msg"
| "failure_reason (Response status_code header content) = ''HTTP '' @ str_int status_code"

text \<open>
  The effects of the failed attempts of a list: for each, the GET, the file it leaves
  behind if its write raised, and the backoff sleep.
\<close>

definition backoff_trace ::
  "libs \<Rightarrow> (nat \<Rightarrow> get_result) \<Rightarrow> (nat \<Rightarrow> string \<Rightarrow> bytes \<Rightarrow> write_result) \<Rightarrow>
   string \<Rightarrow> string \<Rightarrow> string \<Rightarrow> int \<Rightarrow> nat list \<Rightarrow> event list" where
  "backoff_trace L session_get disk url dest_name folder timeout ks =
     concat (map (\<lambda>k. EGet url timeout
                       # attempt_leftover L url dest_name folder (session_get k) (disk k)
                       @ [ESleep (1 / 2 * (real k + 1))]) ks)"

text \<open>The number of attempts that fail before the first success or the end of the range.\<close>

definition failed_attempts ::
  "libs \<Rightarrow> (nat \<Rightarrow> get_result) \<Rightarrow> (nat \<Rightarrow> string \<Rightarrow> bytes \<Rightarrow> write_result) \<Rightarrow>
   string \<Rightarrow> string \<Rightarrow> string \<Rightarrow> int \<Rightarrow> nat" where
  "failed_attempts L session_get disk url dest_name folder max_retries =
     length (takeWhile
               (\<lambda>k. attempt_success L url dest_name folder (session_get k) (disk k) = None)
               [0..<nat (max_retries + 1)])"

definition three_failures :: "nat \<Rightarrow> get_result" where
  "three_failures k =
     (if k = 0 then Response 404 None []
      else if k = 1 then Raises ''timed out''
      else Response 500 (Some ''text/html'') [])"

definition fails_then_png :: "nat \<Rightarrow> get_result" where
  "fails_then_png k =
     (if k = 0 then Response 503 None []
      else Response 200 (Some ''image/jpeg; q=1'') png_2x2)"

definition always_jpeg :: "nat \<Rightarrow> get_result" where
  "always_jpeg k = Response 200 None [0xFF, 0xD8, 0xFF, 0xE0]"

definition disk_ok :: "nat \<Rightarrow> string \<Rightarrow> bytes \<Rightarrow> write_result" where
  "disk_ok k p c = Written"

definition folder_missing :: "nat \<Rightarrow> string \<Rightarrow> bytes \<Rightarrow> write_result" where
  "folder_missing k p c =
     OpenRaises (''[Errno 2] No such file or directory: '' @ [CHR 0x27] @ p @ [CHR 0x27])"

definition disk_full :: "nat \<Rightarrow> string \<Rightarrow> bytes \<Rightarrow> write_result" where
  "disk_full k p c = WriteRaises ''[Errno 28] No space left on device'' (take 2 c)"

section \<open>Download Coordinator\<close>

text \<open>
  The dispatch loop: \<open>counter\<close> and the futures submitted so far are passed through. A
  future is kept as the URL and the destination name it was submitted with.
\<close>

fun dispatch_loop :: "int \<Rightarrow> string list \<Rightarrow> (string \<times> string) list \<Rightarrow> (string \<times> string) list" where
  "dispatch_loop counter [] submitted = submitted"
| "dispatch_loop counter (url # rest) submitted =
     (let counter' = counter + 1;
          dest_name = ''bill '' @ str_int counter'
      in dispatch_loop counter' rest (submitted @ [(url, dest_name)]))"

definition dispatch :: "int \<Rightarrow> string list \<Rightarrow> (string \<times> string) list" where
  "dispatch start_index unique = dispatch_loop (start_index - 1) unique []"

type_synonym result_row = "string \<times> string option \<times> bool \<times> string option"

record collector =
  results :: "result_row list"
  done_count :: nat
  log_lines :: "string list"

fun fmt :: "string option \<Rightarrow> string" where
  "fmt None = ''None''"
| "fmt (Some s) = s"

text \<open>
  The loop over \<open>as_completed(future_to_info)\<close>. The futures are numbered in dispatch
  order; \<open>order\<close> lists them as they complete. \<open>as_completed\<close> yields submitted futures
  only, so a number outside the range is passed over.
\<close>

fun collect :: "(string \<times> outcome) list \<Rightarrow> nat list \<Rightarrow> collector \<Rightarrow> collector" where
  "collect futs [] st = st"
| "collect futs (i # order) st =
     (if i < length futs then
        (case futs ! i of
           (url, (success, final_name, error)) \<Rightarrow>
             if success then
               collect futs order
                 (st\<lparr> results := results st @ [(url, final_name, True, None)],
                      done_count := done_count st + 1,
                      log_lines := log_lines st @ [''OK: '' @ url @ '' -> '' @ fmt final_name] \<rparr>)
             else
               collect futs order
                 (st\<lparr> results := results st @ [(url, None, False, error)],
                      done_count := done_count st + 1,
                      log_lines := log_lines st @ [''FAIL: '' @ url @ '' -> '' @ fmt error] \<rparr>))
      else collect futs order st)"

text \<open>
  One run: every URL is dispatched, each future holds what \<open>download_one\<close> returns for
  it, and the results are collected in completion order. \<open>net url\<close> is what the session
  answers to the successive GETs of \<open>url\<close>, \<open>disks url\<close> how the disk behaves at the
  attempts made for \<open>url\<close>.
\<close>

definition run_downloads ::
  "libs \<Rightarrow> (string \<Rightarrow> nat \<Rightarrow> get_result) \<Rightarrow> (string \<Rightarrow> nat \<Rightarrow> string \<Rightarrow> bytes \<Rightarrow> write_result) \<Rightarrow>
   string list \<Rightarrow> string \<Rightarrow> int \<Rightarrow> int \<Rightarrow> int \<Rightarrow> nat list \<Rightarrow> collector" where
  "run_downloads L net disks unique folder timeout max_retries start_index order =
     (let futs = map (\<lambda>(url, dest_name).
                   (url, fst (download_one L (net url) (disks url) url dest_name folder
                                timeout max_retries)))
                 (dispatch start_index unique)
      in collect futs order \<lparr> results = [], done_count = 0, log_lines = [] \<rparr>)"

definition succ :: "collector \<Rightarrow> nat" where
  "succ st = length (filter (\<lambda>r. fst (snd (snd r))) (results st))"

definition fail :: "collector \<Rightarrow> nat" where
  "fail st = length (filter (\<lambda>r. \<not> fst (snd (snd r))) (results st))"

text \<open>The row that the collection loop stores for a URL and the outcome of its future.\<close>

fun row_of :: "string \<Rightarrow> outcome \<Rightarrow> result_row" where
  "row_of url (success, final_name, error) =
     (if success then (url, final_name, True, None) else (url, None, False, error))"

definition two_urls :: "string list" where
  "two_urls = [''http://a/x.jpg'', ''http://a/missing'']"

definition two_urls_net :: "string \<Rightarrow> nat \<Rightarrow> get_result" where
  "two_urls_net url k =
     (if url = ''http://a/x.jpg'' then Response 200 None [0xFF, 0xD8, 0xFF, 0xE0]
      else Response 404 None [])"

definition two_urls_disks :: "string \<Rightarrow> nat \<Rightarrow> string \<Rightarrow> bytes \<Rightarrow> write_result" where
  "two_urls_disks url = disk_ok"

section \<open>Properties of the URL Extractor\<close>

lemma scan_series_append:
  "scan_series series urls = urls @ filter is_http_url (map py_strip series)"
  by (induction series arbitrary: urls) (simp_all add: Let_def)

lemma scan_columns_append:
  "scan_columns cols urls = urls @ filter is_http_url (map py_strip (concat (map snd cols)))"
  by (induction cols arbitrary: urls) (simp_all add: scan_series_append)

lemma find_urls_in_df_filter:
  "find_urls_in_df df = filter is_http_url (map py_strip (cells_by_column df))"
  by (simp add: find_urls_in_df_def cells_by_column_def scan_columns_append)

lemma startswith_length: "startswith s p \<Longrightarrow> length p \<le> length s"
  by (induction s p rule: startswith.induct) simp_all

lemma is_http_url_length: "is_http_url v \<Longrightarrow> 7 \<le> length v"
  unfolding is_http_url_def py_lower_def
  by (auto dest!: startswith_length)

lemma dropWhile_noop: "xs = [] \<or> \<not> P (hd xs) \<Longrightarrow> dropWhile P xs = xs"
  by (cases xs) auto

lemma py_rstrip_last: "py_rstrip s = [] \<or> \<not> py_isspace (last (py_rstrip s))"
proof -
  have "dropWhile py_isspace (rev s) = [] \<or> \<not> py_isspace (hd (dropWhile py_isspace (rev s)))"
    using hd_dropWhile by blast
  then show ?thesis
    by (auto simp: py_rstrip_def last_rev)
qed

lemma py_rstrip_prefix: "\<exists>ws. s = py_rstrip s @ ws"
proof -
  have "s = rev (takeWhile py_isspace (rev s) @ dropWhile py_isspace (rev s))"
    by (simp only: takeWhile_dropWhile_id rev_rev_ident)
  then have "s = py_rstrip s @ rev (takeWhile py_isspace (rev s))"
    by (simp only: rev_append py_rstrip_def)
  then show ?thesis ..
qed

lemma py_rstrip_hd:
  assumes "s = [] \<or> \<not> py_isspace (hd s)"
  shows "py_rstrip s = [] \<or> \<not> py_isspace (hd (py_rstrip s))"
proof (cases "py_rstrip s = []")
  case True then show ?thesis by simp
next
  case False
  obtain ws where ws: "s = py_rstrip s @ ws" using py_rstrip_prefix by blast
  from False ws have "hd s = hd (py_rstrip s)" by (metis hd_append2)
  moreover from False ws have "s \<noteq> []" by auto
  ultimately show ?thesis using assms by simp
qed

lemma py_lstrip_hd: "py_lstrip s = [] \<or> \<not> py_isspace (hd (py_lstrip s))"
  unfolding py_lstrip_def using hd_dropWhile by blast

lemma py_strip_ends:
  "py_strip s = [] \<or> (\<not> py_isspace (hd (py_strip s)) \<and> \<not> py_isspace (last (py_strip s)))"
  unfolding py_strip_def
  using py_rstrip_hd [OF py_lstrip_hd, of s] py_rstrip_last [of "py_lstrip s"] by blast

lemma py_strip_noop:
  assumes "t = [] \<or> (\<not> py_isspace (hd t) \<and> \<not> py_isspace (last t))"
  shows "py_strip t = t"
proof -
  have l: "py_lstrip t = t"
    unfolding py_lstrip_def using assms by (intro dropWhile_noop) blast
  have "rev t = [] \<or> \<not> py_isspace (hd (rev t))"
    using assms by (auto simp: hd_rev)
  then have "dropWhile py_isspace (rev t) = rev t" by (rule dropWhile_noop)
  then have "py_rstrip t = t" by (simp add: py_rstrip_def)
  with l show ?thesis by (simp add: py_strip_def)
qed

lemma py_strip_idem: "py_strip (py_strip s) = py_strip s"
  by (rule py_strip_noop) (rule py_strip_ends)

lemma find_urls_in_df_elem:
  assumes "u \<in> set (find_urls_in_df df)"
  shows "is_http_url u \<and> py_strip u = u \<and> 7 \<le> length u"
proof -
  from assms obtain c where "u = py_strip c" and h: "is_http_url u"
    by (auto simp: find_urls_in_df_filter)
  then have "py_strip u = u" by (simp add: py_strip_idem)
  with h show ?thesis by (simp add: is_http_url_length)
qed

lemma length_filter_find_urls: "length_filter (find_urls_in_df df) = find_urls_in_df df"
  unfolding length_filter_def
  by (rule filter_True) (auto dest!: find_urls_in_df_elem)

lemma dict_fromkeys_dedup:
  "dict_fromkeys d ks = d @ filter (\<lambda>k. k \<notin> set d) (dedup_first ks)"
proof (induction ks arbitrary: d)
  case Nil then show ?case by simp
next
  case (Cons k ks)
  show ?case
  proof (cases "k \<in> set d")
    case True
    then have "filter (\<lambda>k. k \<notin> set d) (removeAll k (dedup_first ks)) = filter (\<lambda>k. k \<notin> set d) (dedup_first ks)"
      by (auto simp: removeAll_filter_not_eq intro: filter_cong)
    with True Cons show ?thesis by simp
  next
    case False
    have "filter (\<lambda>x. x \<notin> set (d @ [k])) (dedup_first ks) = filter (\<lambda>x. x \<notin> set d) (removeAll k (dedup_first ks))"
      by (auto simp: removeAll_filter_not_eq intro: filter_cong)
    with False Cons show ?thesis by simp
  qed
qed

lemma set_dedup_first: "set (dedup_first xs) = set xs"
  by (induction xs) auto

lemma distinct_dedup_first: "distinct (dedup_first xs)"
  by (induction xs) (auto simp: distinct_removeAll)

lemma first_index_Cons_neq: "y \<noteq> x \<Longrightarrow> first_index (x # xs) y = Suc (first_index xs y)"
  by simp

lemma sorted_dedup_first:
  "sorted_wrt (\<lambda>a b. first_index xs a < first_index xs b) (dedup_first xs)"
proof (induction xs)
  case Nil then show ?case by simp
next
  case (Cons x xs)
  have "sorted_wrt (\<lambda>a b. first_index xs a < first_index xs b) (removeAll x (dedup_first xs))"
    using Cons by (simp add: removeAll_filter_not_eq sorted_wrt_filter)
  then have "sorted_wrt (\<lambda>a b. first_index (x # xs) a < first_index (x # xs) b) (removeAll x (dedup_first xs))"
    by (rule sorted_wrt_mono_rel [rotated]) auto
  then show ?case by auto
qed

lemma sorted_dedup_first_filter:
  "sorted_wrt (\<lambda>a b. first_index xs a < first_index xs b) (dedup_first (filter P xs))"
proof (induction xs)
  case Nil then show ?case by simp
next
  case (Cons x xs)
  let ?D = "dedup_first (filter P xs)"
  show ?case
  proof (cases "P x")
    case True
    have "sorted_wrt (\<lambda>a b. first_index xs a < first_index xs b) (removeAll x ?D)"
      using Cons by (simp add: removeAll_filter_not_eq sorted_wrt_filter)
    then have "sorted_wrt (\<lambda>a b. first_index (x # xs) a < first_index (x # xs) b) (removeAll x ?D)"
      by (rule sorted_wrt_mono_rel [rotated]) auto
    with True show ?thesis by auto
  next
    case False
    then have "\<forall>a \<in> set ?D. a \<noteq> x"
      by (auto simp: set_dedup_first)
    with Cons have "sorted_wrt (\<lambda>a b. first_index (x # xs) a < first_index (x # xs) b) ?D"
      by - (rule sorted_wrt_mono_rel [rotated], assumption, auto)
    with False show ?thesis by simp
  qed
qed

text \<open>
  C10. Every string returned by \<open>find_urls_in_df\<close> begins, case-insensitively and after
  trimming, with \<open>http://\<close> or \<open>https://\<close>, hence has at least 7 characters, and the
  filter \<open>u and len(u) > 6\<close> applied to that output returns the same list.
\<close>

theorem length_filter_identity:
  "length_filter (find_urls_in_df df) = find_urls_in_df df \<and>
   (\<forall>u \<in> set (find_urls_in_df df). is_http_url (py_strip u) \<and> 7 \<le> length u)"
proof
  show "length_filter (find_urls_in_df df) = find_urls_in_df df"
    by (rule length_filter_find_urls)
  show "\<forall>u \<in> set (find_urls_in_df df). is_http_url (py_strip u) \<and> 7 \<le> length u"
    using find_urls_in_df_elem by auto
qed

theorem length_filter_identity_witness:
  "''HTTPS://k/b.jpg'' \<in> set (find_urls_in_df table_2x2) \<and>
   is_http_url (py_strip ''HTTPS://k/b.jpg'') \<and> 7 \<le> length ''HTTPS://k/b.jpg'' \<and>
   length_filter (find_urls_in_df table_2x2) = find_urls_in_df table_2x2"
proof -
  have mem: "''HTTPS://k/b.jpg'' \<in> set (find_urls_in_df table_2x2)"
    by code_simp
  from length_filter_identity [of table_2x2] mem show ?thesis
    by blast
qed

text \<open>
  C9, as the specification words it with ``row-major'': the raw list would follow the
  cells row after row. On a table of two columns and two rows the list that the code
  builds differs from that order.
\<close>

theorem find_urls_not_row_major:
  "find_urls_in_df table_2x2 \<noteq> filter is_http_url (map py_strip (cells_by_row table_2x2))"
  by code_simp

text \<open>
  C9, amended: the raw list holds the trimmed matching cells in column-major order,
  that is column after column in the order of \<open>df.columns\<close> and, inside a column, from
  the first row to the last; every cell is read exactly once.
\<close>

theorem find_urls_column_major:
  "find_urls_in_df df = filter is_http_url (map py_strip (cells_by_column df))"
  by (rule find_urls_in_df_filter)

text \<open>
  C2. The final output of the Extractor (after the length filter and the
  deduplication) holds only strings that, trimmed, begin case-insensitively with
  \<open>http://\<close> or \<open>https://\<close> and are longer than 6; it has no duplicates; and its
  elements stand in the order of their first occurrence among the trimmed cells of the
  traversal. It holds every matching trimmed cell.
\<close>

theorem unique_urls_sound:
  "(\<forall>u \<in> set (unique_urls df). is_http_url (py_strip u) \<and> 6 < length u) \<and>
   distinct (unique_urls df) \<and>
   sorted_wrt (\<lambda>a b. first_index (map py_strip (cells_by_column df)) a
                     < first_index (map py_strip (cells_by_column df)) b) (unique_urls df) \<and>
   set (unique_urls df) = {u \<in> set (map py_strip (cells_by_column df)). is_http_url u}"
proof -
  let ?T = "map py_strip (cells_by_column df)"
  have eq: "unique_urls df = dedup_first (filter is_http_url ?T)"
    unfolding unique_urls_def length_filter_find_urls dict_fromkeys_dedup
    by (simp add: find_urls_in_df_filter)
  have s: "set (unique_urls df) = set (find_urls_in_df df)"
    by (simp add: eq set_dedup_first find_urls_in_df_filter)
  have "\<forall>u \<in> set (unique_urls df). is_http_url (py_strip u) \<and> 6 < length u"
    unfolding s using find_urls_in_df_elem by fastforce
  moreover have "distinct (unique_urls df)"
    by (simp add: eq distinct_dedup_first)
  moreover have "sorted_wrt (\<lambda>a b. first_index ?T a < first_index ?T b) (unique_urls df)"
    unfolding eq by (rule sorted_dedup_first_filter)
  moreover have "set (unique_urls df) = {u \<in> set ?T. is_http_url u}"
    by (auto simp: eq set_dedup_first)
  ultimately show ?thesis by blast
qed

theorem unique_urls_sound_witness:
  "unique_urls table_2x2 = [''http://k/a.jpg'', ''HTTPS://k/b.jpg'', ''https://k/c.png''] \<and>
   ''HTTPS://k/b.jpg'' \<in> set (unique_urls table_2x2) \<and>
   is_http_url (py_strip ''HTTPS://k/b.jpg'') \<and> 6 < length ''HTTPS://k/b.jpg'' \<and>
   distinct (unique_urls table_2x2)"
proof -
  have val: "unique_urls table_2x2 = [''http://k/a.jpg'', ''HTTPS://k/b.jpg'', ''https://k/c.png'']"
    by code_simp
  have mem: "''HTTPS://k/b.jpg'' \<in> set (unique_urls table_2x2)"
    by code_simp
  from unique_urls_sound [of table_2x2] mem val show ?thesis
    by blast
qed

section \<open>Properties of the Content-Type Sniffer\<close>

lemma drop_rfind:
  assumes "c \<in> set s"
  shows "drop (nat (rfind c s)) s = c # rev (takeWhile (\<lambda>x. x \<noteq> c) (rev s))"
proof -
  let ?tw = "takeWhile (\<lambda>x. x \<noteq> c) (rev s)"
  let ?dw = "dropWhile (\<lambda>x. x \<noteq> c) (rev s)"
  from assms have "?dw \<noteq> []" by (simp add: dropWhile_eq_Nil_conv) 
  moreover have "hd ?dw = c" using hd_dropWhile [OF \<open>?dw \<noteq> []\<close>] by simp
  ultimately obtain rest where dw: "?dw = c # rest" by (cases ?dw) auto
  have "rev s = ?tw @ c # rest" using dw takeWhile_dropWhile_id [of "\<lambda>x. x \<noteq> c" "rev s"] by simp
  then have s: "s = rev rest @ c # rev ?tw" by (simp add: rev_swap)
  then have len: "length s = length rest + 1 + length ?tw"
    by (metis add.commute length_Cons length_append length_rev plus_1_eq_Suc add.assoc)
  have "nat (rfind c s) = length (rev rest)"
    using assms len by (simp add: rfind_def)
  moreover have "drop (length (rev rest)) (rev rest @ c # rev ?tw) = c # rev ?tw"
    by simp
  ultimately show ?thesis using s by metis
qed

lemma rfind_ge: "- 1 \<le> rfind c s"
proof -
  have "length (takeWhile (\<lambda>x. x \<noteq> c) (rev s)) \<le> length (rev s)"
    by (rule length_takeWhile_le)
  then show ?thesis by (simp add: rfind_def)
qed

lemma snd_skip_leading_dots:
  "snd (skip_leading_dots p d f) = [] \<or> snd (skip_leading_dots p d f) = drop d p"
  by (induction p d f rule: skip_leading_dots.induct)
     (subst (1 2) skip_leading_dots.simps, simp)

lemma splitext_ext:
  "snd (splitext p) = [] \<or>
   (\<exists>r. snd (splitext p) = CHR ''.'' # r \<and> CHR ''.'' \<notin> set r)"
proof (cases "rfind CHR ''.'' p > rfind CHR ''/'' p")
  case False
  then show ?thesis by (simp add: splitext_def Let_def)
next
  case True
  have "- 1 \<le> rfind CHR ''/'' p" by (rule rfind_ge)
  with True have "rfind CHR ''.'' p \<noteq> - 1" by simp
  then have mem: "CHR ''.'' \<in> set p" by (auto simp: rfind_def split: if_splits)
  let ?r = "rev (takeWhile (\<lambda>x. x \<noteq> CHR ''.'') (rev p))"
  have "CHR ''.'' \<notin> set ?r" by (auto dest: set_takeWhileD)
  moreover have "snd (splitext p) = [] \<or> snd (splitext p) = CHR ''.'' # ?r"
    using True snd_skip_leading_dots [of p "nat (rfind CHR ''.'' p)" "nat (rfind CHR ''/'' p + 1)"]
    by (simp add: splitext_def Let_def drop_rfind [OF mem])
  ultimately show ?thesis by blast
qed

lemma lstrip_dots_ext:
  assumes "ext2 = CHR ''.'' # r" and "CHR ''.'' \<notin> set r"
  shows "lstrip_dots ext2 = r"
  using assms by (cases r) (auto simp: lstrip_dots_def)

lemma lstrip_dots_no_dot: "\<not> startswith (lstrip_dots s) ''.''"
proof (cases "lstrip_dots s")
  case Nil then show ?thesis by simp
next
  case (Cons c cs)
  then have "dropWhile (\<lambda>c. c = CHR ''.'') s \<noteq> []" by (simp add: lstrip_dots_def)
  from hd_dropWhile [OF this] Cons show ?thesis by (simp add: lstrip_dots_def)
qed

lemma url_stage_result:
  assumes "ext2 = snd (splitext path)" and "ext2 \<noteq> []"
  shows "CHR ''.'' # lstrip_dots ext2 = ext2 \<and> \<not> startswith (lstrip_dots ext2) ''.''"
proof -
  from splitext_ext [of path] assms obtain r
    where r: "ext2 = CHR ''.'' # r" "CHR ''.'' \<notin> set r" by auto
  then have "lstrip_dots ext2 = r" by (rule lstrip_dots_ext)
  with r show ?thesis by (simp add: lstrip_dots_no_dot [of ext2, simplified \<open>lstrip_dots ext2 = r\<close>])
qed

text \<open>
  C4, as stated: for every input the result is that of the first matching stage of the
  chain, the last stage being the literal \<open>jpg\<close>. With no signature, no content type
  and the URL \<open>http://[\<close>, \<open>urlparse\<close> raises \<open>ValueError\<close> and \<open>detect_extension\<close> raises
  with it: the result is neither an extension of the URL's path nor \<open>jpg\<close>.
\<close>

theorem detect_extension_chain_raises:
  "filetype_guess sample_libs [] = None \<and>
   detect_extension sample_libs [] [] ''http://['' = Inl (ValueError ''Invalid IPv6 URL'')"
  by code_simp

text \<open>
  C4, amended: \<open>detect_extension\<close> tries four stages in order and returns the first
  match: (1) the signature found in the bytes; (2) the declared content type, cut at
  the first semicolon, looked up in the media-type table; and, for every URL on which
  \<open>urlparse\<close> returns a path, (3) the extension of that path, taken when it is present
  and has at most 6 characters with its dot, the dot removed; (4) the literal \<open>jpg\<close>.
\<close>

theorem detect_extension_chain:
  "(\<forall>e. filetype_guess L content = Some e \<longrightarrow>
        detect_extension L content content_type url = Inr e) \<and>
   (\<forall>g. filetype_guess L content = None \<and> content_type \<noteq> [] \<and>
        guess_extension L (py_strip (split_semicolon_first content_type)) = Some g \<and> g \<noteq> [] \<longrightarrow>
        detect_extension L content content_type url = Inr (lstrip_dots g)) \<and>
   (\<forall>path. filetype_guess L content = None \<and>
        (content_type = [] \<or>
         guess_extension L (py_strip (split_semicolon_first content_type)) = None \<or>
         guess_extension L (py_strip (split_semicolon_first content_type)) = Some []) \<and>
        urlparse_path L url = Inr path \<longrightarrow>
        (snd (splitext path) \<noteq> [] \<and> length (snd (splitext path)) \<le> 6 \<longrightarrow>
           (\<exists>ext. detect_extension L content content_type url = Inr ext \<and>
                  snd (splitext path) = CHR ''.'' # ext)) \<and>
        (snd (splitext path) = [] \<or> 6 < length (snd (splitext path)) \<longrightarrow>
           detect_extension L content content_type url = Inr ''jpg''))"
proof (intro conjI allI impI)
  fix e assume "filetype_guess L content = Some e"
  then show "detect_extension L content content_type url = Inr e"
    by (simp add: detect_extension_def)
next
  fix g
  assume "filetype_guess L content = None \<and> content_type \<noteq> [] \<and>
        guess_extension L (py_strip (split_semicolon_first content_type)) = Some g \<and> g \<noteq> []"
  then show "detect_extension L content content_type url = Inr (lstrip_dots g)"
    by (simp add: detect_extension_def)
next
  fix path
  assume a: "filetype_guess L content = None \<and>
        (content_type = [] \<or>
         guess_extension L (py_strip (split_semicolon_first content_type)) = None \<or>
         guess_extension L (py_strip (split_semicolon_first content_type)) = Some []) \<and>
        urlparse_path L url = Inr path"
    and b: "snd (splitext path) \<noteq> [] \<and> length (snd (splitext path)) \<le> 6"
  from a b have "detect_extension L content content_type url = Inr (lstrip_dots (snd (splitext path)))"
    by (auto simp: detect_extension_def Let_def)
  moreover from b have "CHR ''.'' # lstrip_dots (snd (splitext path)) = snd (splitext path)"
    using url_stage_result [of "snd (splitext path)" path] by simp
  ultimately show "\<exists>ext. detect_extension L content content_type url = Inr ext \<and>
                  snd (splitext path) = CHR ''.'' # ext"
    by simp
next
  fix path
  assume a: "filetype_guess L content = None \<and>
        (content_type = [] \<or>
         guess_extension L (py_strip (split_semicolon_first content_type)) = None \<or>
         guess_extension L (py_strip (split_semicolon_first content_type)) = Some []) \<and>
        urlparse_path L url = Inr path"
    and b: "snd (splitext path) = [] \<or> 6 < length (snd (splitext path))"
  then show "detect_extension L content content_type url = Inr ''jpg''"
    by (auto simp: detect_extension_def Let_def)
qed

theorem detect_extension_chain_witness:
  "detect_extension sample_libs png_2x2 ''image/jpeg; q=1'' ''http://a/x.PNG'' = Inr ''png'' \<and>
   detect_extension sample_libs [] ''image/jpeg; q=1'' ''http://a/x.PNG'' = Inr ''jpg'' \<and>
   detect_extension sample_libs [] [] ''http://a/x.PNG'' = Inr ''PNG'' \<and>
   detect_extension sample_libs [] [] ''http://a/photo'' = Inr ''jpg''"
proof -
  have s1: "filetype_guess sample_libs png_2x2 = Some ''png''" by code_simp
  have s0: "filetype_guess sample_libs [] = None" by code_simp
  have m: "guess_extension sample_libs (py_strip (split_semicolon_first ''image/jpeg; q=1''))
             = Some ''.jpg''" by code_simp
  have d: "lstrip_dots ''.jpg'' = ''jpg''" by code_simp
  have u1: "urlparse_path sample_libs ''http://a/x.PNG'' = Inr ''/x.PNG''" by code_simp
  have e1: "snd (splitext ''/x.PNG'') = ''.PNG''" by code_simp
  have u2: "urlparse_path sample_libs ''http://a/photo'' = Inr ''/photo''" by code_simp
  have e2: "snd (splitext ''/photo'') = []" by code_simp
  have "detect_extension sample_libs png_2x2 ''image/jpeg; q=1'' ''http://a/x.PNG'' = Inr ''png''"
    using detect_extension_chain [of sample_libs png_2x2 "''image/jpeg; q=1''" "''http://a/x.PNG''"] s1
    by blast
  moreover have "detect_extension sample_libs [] ''image/jpeg; q=1'' ''http://a/x.PNG'' = Inr ''jpg''"
    using detect_extension_chain [of sample_libs "[]" "''image/jpeg; q=1''" "''http://a/x.PNG''"] s0 m d
    by auto
  moreover have "detect_extension sample_libs [] [] ''http://a/x.PNG'' = Inr ''PNG''"
    using detect_extension_chain [of sample_libs "[]" "[]" "''http://a/x.PNG''"] s0 u1 e1
    by auto
  moreover have "detect_extension sample_libs [] [] ''http://a/photo'' = Inr ''jpg''"
    using detect_extension_chain [of sample_libs "[]" "[]" "''http://a/photo''"] s0 u2 e2
    by auto
  ultimately show ?thesis by blast
qed



text \<open>
  Two more inputs on which the result is not an extension of that shape: a path that
  ends with a dot, and a URL on which \<open>urlparse\<close> raises.
\<close>

lemma detect_extension_empty_example:
  "detect_extension sample_libs [] [] ''http://a/x.'' = Inr []"
  by code_simp

lemma detect_extension_raises:
  assumes "filetype_guess L content = None" and "urlparse_path L url = Inl e"
  shows "detect_extension L content [] url = Inl e"
  using assms by (simp add: detect_extension_def)



section \<open>Properties of the Fetcher\<close>

lemma backoff_trace_Nil: "backoff_trace L g disk url dest folder t [] = []"
  by (simp add: backoff_trace_def)

lemma backoff_trace_Cons:
  "backoff_trace L g disk url dest folder t (k # ks) =
     EGet url t # attempt_leftover L url dest folder (g k) (disk k)
       @ ESleep (1 / 2 * (real k + 1)) # backoff_trace L g disk url dest folder t ks"
  by (simp add: backoff_trace_def)

lemma attempt_leftover_cases:
  "attempt_leftover L url dest folder r dk = [] \<or>
   (\<exists>p left. attempt_leftover L url dest folder r dk = [EBroken p left])"
  by (cases r)
     (auto simp: attempt_leftover_def split: if_splits sum.splits write_result.splits)

lemma retry_loop_failed_step:
  assumes "attempt_success L url dest folder (g k) (disk k) = None"
  shows "retry_loop L g disk url dest folder t (k # rest) last_exc tr =
         retry_loop L g disk url dest folder t rest
           (Some (attempt_error L url dest folder (g k) (disk k)))
           (tr @ EGet url t # attempt_leftover L url dest folder (g k) (disk k)
               @ [ESleep (1 / 2 * (real k + 1))])"
  using assms
  by (cases "g k")
     (auto simp: retry_loop.simps(2) attempt_success_def attempt_error_def attempt_leftover_def
           Let_def split: sum.splits if_splits write_result.splits)

lemma retry_loop_success_step:
  assumes "attempt_success L url dest folder (g k) (disk k) = Some (ext, content)"
  shows "retry_loop L g disk url dest folder t (k # rest) last_exc tr =
         ((True, Some (dest @ ''.'' @ ext), None),
          tr @ [EGet url t, EWrite (os_path_join folder (dest @ ''.'' @ ext)) content])"
  using assms
  by (cases "g k")
     (auto simp: retry_loop.simps(2) attempt_success_def Let_def
           split: sum.splits if_splits write_result.splits)

lemma retry_loop_failed_prefix:
  assumes "\<forall>k \<in> set fs. attempt_success L url dest folder (g k) (disk k) = None"
  shows "retry_loop L g disk url dest folder t (fs @ rest) last_exc tr =
         retry_loop L g disk url dest folder t rest
           (if fs = [] then last_exc
            else Some (attempt_error L url dest folder (g (last fs)) (disk (last fs))))
           (tr @ backoff_trace L g disk url dest folder t fs)"
  using assms
proof (induction fs arbitrary: last_exc tr)
  case Nil
  then show ?case by (simp add: backoff_trace_Nil)
next
  case (Cons k fs)
  then have k: "attempt_success L url dest folder (g k) (disk k) = None"
    and fs: "\<forall>k \<in> set fs. attempt_success L url dest folder (g k) (disk k) = None"
    by simp_all
  show ?case
    using Cons.IH [OF fs]
    by (simp add: retry_loop_failed_step [where g = g and disk = disk and k = k, OF k]
        backoff_trace_Cons)
qed

lemma takeWhile_upt:
  "takeWhile P [0..<n] = [0..<length (takeWhile P [0..<n])]"
proof -
  let ?m = "length (takeWhile P [0..<n])"
  have "?m \<le> n" using length_takeWhile_le [of P "[0..<n]"] by simp
  then have "take ?m [0..<n] = [0..<?m]" by simp
  then show ?thesis using takeWhile_eq_take [of P "[0..<n]"] by simp
qed

lemma dropWhile_upt:
  "dropWhile P [0..<n] = [length (takeWhile P [0..<n])..<n]"
  using dropWhile_eq_drop [of P "[0..<n]"] by simp

lemma failed_attempts_le: "failed_attempts L g disk url dest folder R \<le> nat (R + 1)"
  unfolding failed_attempts_def using length_takeWhile_le [of _ "[0..<nat (R + 1)]"] by simp

lemma failed_attempts_all:
  assumes "k < failed_attempts L g disk url dest folder R"
  shows "attempt_success L url dest folder (g k) (disk k) = None"
proof -
  let ?P = "\<lambda>k. attempt_success L url dest folder (g k) (disk k) = None"
  let ?n = "nat (R + 1)"
  have "takeWhile ?P [0..<?n] = [0..<failed_attempts L g disk url dest folder R]"
    unfolding failed_attempts_def by (rule takeWhile_upt)
  with assms have "k \<in> set (takeWhile ?P [0..<?n])" by simp
  then show ?thesis by (rule set_takeWhileD [THEN conjunct2])
qed

lemma failed_attempts_next:
  assumes "failed_attempts L g disk url dest folder R < nat (R + 1)"
  shows "attempt_success L url dest folder (g (failed_attempts L g disk url dest folder R))
           (disk (failed_attempts L g disk url dest folder R)) \<noteq> None"
proof -
  let ?P = "\<lambda>k. attempt_success L url dest folder (g k) (disk k) = None"
  let ?n = "nat (R + 1)"
  let ?m = "failed_attempts L g disk url dest folder R"
  have "dropWhile ?P [0..<?n] = [?m..<?n]"
    using dropWhile_upt [of ?P ?n] by (simp add: failed_attempts_def)
  with assms have "dropWhile ?P [0..<?n] = ?m # [Suc ?m..<?n]"
    by (simp add: upt_rec)
  then have "\<not> ?P ?m" using hd_dropWhile [of ?P "[0..<?n]"] by simp
  then show ?thesis .
qed

text \<open>
  The whole of one call: the attempts that fail, each with its backoff sleep, and then
  either the end of the range or the first attempt that succeeds.
\<close>

lemma download_one_run:
  fixes L g disk url dest folder t R
  defines "m \<equiv> failed_attempts L g disk url dest folder R"
  shows "(m = nat (R + 1) \<longrightarrow>
            download_one L g disk url dest folder t R =
              ((False, None,
                if m = 0 then None
                else Some (attempt_error L url dest folder (g (m - 1)) (disk (m - 1)))),
               backoff_trace L g disk url dest folder t [0..<m])) \<and>
         (m < nat (R + 1) \<longrightarrow>
            (\<exists>ext content.
               attempt_success L url dest folder (g m) (disk m) = Some (ext, content) \<and>
               download_one L g disk url dest folder t R =
                 ((True, Some (dest @ ''.'' @ ext), None),
                  backoff_trace L g disk url dest folder t [0..<m] @
                  [EGet url t, EWrite (os_path_join folder (dest @ ''.'' @ ext)) content])))"
proof -
  let ?n = "nat (R + 1)"
  have le: "m \<le> ?n" unfolding m_def by (rule failed_attempts_le)
  have split: "[0..<?n] = [0..<m] @ [m..<?n]"
    using le by (metis le_add_diff_inverse upt_add_eq_append zero_le)
  have fails: "\<forall>k \<in> set [0..<m]. attempt_success L url dest folder (g k) (disk k) = None"
    using failed_attempts_all [of _ L g disk url dest folder R] by (simp add: m_def)
  have run: "download_one L g disk url dest folder t R =
      retry_loop L g disk url dest folder t [m..<?n]
        (if [0..<m] = [] then None
         else Some (attempt_error L url dest folder (g (last [0..<m])) (disk (last [0..<m]))))
        (backoff_trace L g disk url dest folder t [0..<m])"
    unfolding download_one_def
    by (subst split) (simp only: retry_loop_failed_prefix [OF fails] append_Nil)
  have lst: "m \<noteq> 0 \<Longrightarrow> last [0..<m] = m - 1"
    by (cases m) simp_all
  show ?thesis
  proof (intro conjI impI)
    assume "m = ?n"
    then have "[m..<?n] = []" by simp
    with run lst show "download_one L g disk url dest folder t R =
              ((False, None,
                if m = 0 then None
                else Some (attempt_error L url dest folder (g (m - 1)) (disk (m - 1)))),
               backoff_trace L g disk url dest folder t [0..<m])"
      by (cases "m = 0") simp_all
  next
    assume lt: "m < ?n"
    then have "attempt_success L url dest folder (g m) (disk m) \<noteq> None"
      using failed_attempts_next [of L g disk url dest folder R] by (simp add: m_def)
    then obtain ext content
      where ok: "attempt_success L url dest folder (g m) (disk m) = Some (ext, content)"
      by (cases "attempt_success L url dest folder (g m) (disk m)") auto
    from lt have "[m..<?n] = m # [Suc m..<?n]" by (simp add: upt_rec)
    with run have "download_one L g disk url dest folder t R =
                 ((True, Some (dest @ ''.'' @ ext), None),
                  backoff_trace L g disk url dest folder t [0..<m] @
                  [EGet url t, EWrite (os_path_join folder (dest @ ''.'' @ ext)) content])"
      by (simp add: retry_loop_success_step [where g = g and disk = disk and k = m, OF ok])
    with ok show "\<exists>ext content.
               attempt_success L url dest folder (g m) (disk m) = Some (ext, content) \<and>
               download_one L g disk url dest folder t R =
                 ((True, Some (dest @ ''.'' @ ext), None),
                  backoff_trace L g disk url dest folder t [0..<m] @
                  [EGet url t, EWrite (os_path_join folder (dest @ ''.'' @ ext)) content])"
      by blast
  qed
qed

lemma http_failure_attempt:
  assumes "http_failure r"
  shows "attempt_success L url dest folder r dk = None \<and>
         attempt_error L url dest folder r dk = failure_reason r"
  using assms by (cases r) (simp_all add: attempt_success_def attempt_error_def)

lemma sleeps_append: "sleeps (xs @ ys) = sleeps xs @ sleeps ys"
  by (induction xs rule: sleeps.induct) simp_all

lemma writes_append: "writes (xs @ ys) = writes xs @ writes ys"
  by (induction xs rule: writes.induct) simp_all

lemma touched_append: "touched (xs @ ys) = touched xs @ touched ys"
  by (induction xs rule: touched.induct) simp_all

lemma leftover_reads:
  "filter is_get (attempt_leftover L url dest folder r dk) = [] \<and>
   sleeps (attempt_leftover L url dest folder r dk) = [] \<and>
   writes (attempt_leftover L url dest folder r dk) = []"
  using attempt_leftover_cases [of L url dest folder r dk] by auto

lemma gets_backoff_trace:
  "length (filter is_get (backoff_trace L g disk url dest folder t ks)) = length ks"
  by (induction ks) (simp_all add: backoff_trace_Nil backoff_trace_Cons leftover_reads)

lemma sleeps_backoff_trace:
  "sleeps (backoff_trace L g disk url dest folder t ks) = map (\<lambda>k. 1 / 2 * (real k + 1)) ks"
  by (induction ks)
     (simp_all add: backoff_trace_Nil backoff_trace_Cons sleeps_append leftover_reads)

lemma writes_backoff_trace: "writes (backoff_trace L g disk url dest folder t ks) = []"
  by (induction ks)
     (simp_all add: backoff_trace_Nil backoff_trace_Cons writes_append leftover_reads)

lemma all_fail_failed_attempts:
  assumes "\<forall>k < nat (R + 1). attempt_success L url dest folder (g k) (disk k) = None"
  shows "failed_attempts L g disk url dest folder R = nat (R + 1)"
proof -
  have "takeWhile (\<lambda>k. attempt_success L url dest folder (g k) (disk k) = None)
          [0..<nat (R + 1)] = [0..<nat (R + 1)]"
    by (rule takeWhile_eq_all_conv [THEN iffD2]) (use assms in simp)
  then show ?thesis unfolding failed_attempts_def by (simp only: length_upt diff_zero)
qed

text \<open>
  C5. For \<open>max_retries = R \<ge> 0\<close>, when every attempt fails (a status other than 200 or
  an exception on each of them), the Fetcher makes exactly \<open>R + 1\<close> GET requests and
  returns failure with the reason of the last attempt.
\<close>

theorem download_one_all_fail:
  assumes "0 \<le> R" and "\<forall>k < nat (R + 1). http_failure (g k)"
  shows "fst (download_one L g disk url dest folder t R)
           = (False, None, Some (failure_reason (g (nat R)))) \<and>
         length (filter is_get (snd (download_one L g disk url dest folder t R))) = nat R + 1"
proof -
  let ?n = "nat (R + 1)"
  from assms(1) have n: "?n = nat R + 1" by simp
  have "\<forall>k < ?n. attempt_success L url dest folder (g k) (disk k) = None"
    using assms(2) http_failure_attempt by blast
  then have m: "failed_attempts L g disk url dest folder R = ?n"
    by (rule all_fail_failed_attempts)
  have "http_failure (g (nat R))" using assms(2) n by simp
  then have err: "attempt_error L url dest folder (g (nat R)) (disk (nat R))
      = failure_reason (g (nat R))"
    using http_failure_attempt by blast
  have "download_one L g disk url dest folder t R =
      ((False, None, Some (attempt_error L url dest folder (g (nat R)) (disk (nat R)))),
       backoff_trace L g disk url dest folder t [0..<?n])"
    using download_one_run [of L g disk url dest folder R t] m n by simp
  then show ?thesis by (simp add: err gets_backoff_trace n)
qed

theorem download_one_all_fail_witness:
  "(0::int) \<le> 2 \<and>
   http_failure (three_failures 0) \<and> http_failure (three_failures 1) \<and>
   http_failure (three_failures 2) \<and>
   fst (download_one sample_libs three_failures disk_ok ''http://a/x'' ''bill 1'' ''images'' 20 2)
     = (False, None, Some ''HTTP 500'') \<and>
   length (filter is_get
     (snd (download_one sample_libs three_failures disk_ok ''http://a/x'' ''bill 1'' ''images''
             20 2))) = 3"
proof -
  have h: "\<forall>k < nat (2 + 1). http_failure (three_failures k)"
    by (simp add: three_failures_def)
  have r: "failure_reason (three_failures (nat 2)) = ''HTTP 500''" by code_simp
  have f: "http_failure (three_failures 0)" "http_failure (three_failures 1)"
    "http_failure (three_failures 2)"
    by (simp_all add: three_failures_def)
  from download_one_all_fail [of 2 three_failures sample_libs disk_ok "''http://a/x''"
      "''bill 1''" "''images''" 20] h r f
  show ?thesis by simp
qed

text \<open>
  C6, as stated: no backoff sleep occurs once the final allowed attempt has failed. With
  \<open>max_retries = 2\<close> and three failed attempts the Fetcher sleeps three times, the third
  time (1.5 s) after the last attempt, and then returns failure.
\<close>

theorem download_one_sleeps_after_last_attempt:
  "sleeps (snd (download_one sample_libs three_failures disk_ok ''http://a/x'' ''bill 1''
                  ''images'' 20 2))
     = [1 / 2, 1, 3 / 2] \<and>
   length (filter is_get
     (snd (download_one sample_libs three_failures disk_ok ''http://a/x'' ''bill 1'' ''images''
             20 2))) = 3 \<and>
   fst (download_one sample_libs three_failures disk_ok ''http://a/x'' ''bill 1'' ''images'' 20 2)
     = (False, None, Some ''HTTP 500'')"
  by code_simp

text \<open>
  C6, amended: after a failed attempt with 0-based number \<open>k\<close> the Fetcher sleeps
  \<open>0.5 * (k + 1)\<close> seconds, after the final allowed attempt as well; a next attempt
  follows only while attempts are left. An attempt fails when the GET raises, the
  status is not 200, \<open>detect_extension\<close> raises, or \<open>open\<close> or \<open>write\<close> raises. The trace
  of a call is, for each failed attempt, its GET, the file it leaves behind if any, and
  its sleep; then nothing when all \<open>max_retries + 1\<close> attempts have failed, and the GET
  and the write of the first successful attempt otherwise.
\<close>

theorem download_one_backoff:
  "\<exists>rest.
     snd (download_one L g disk url dest folder t R)
       = backoff_trace L g disk url dest folder t
           [0..<failed_attempts L g disk url dest folder R] @ rest \<and>
     sleeps (snd (download_one L g disk url dest folder t R))
       = map (\<lambda>k. 1 / 2 * (real k + 1)) [0..<failed_attempts L g disk url dest folder R] \<and>
     failed_attempts L g disk url dest folder R \<le> nat (R + 1) \<and>
     (\<forall>k < failed_attempts L g disk url dest folder R.
        attempt_success L url dest folder (g k) (disk k) = None) \<and>
     (failed_attempts L g disk url dest folder R = nat (R + 1) \<longrightarrow>
        rest = [] \<and> \<not> fst (fst (download_one L g disk url dest folder t R))) \<and>
     (failed_attempts L g disk url dest folder R < nat (R + 1) \<longrightarrow>
        (\<exists>p c. rest = [EGet url t, EWrite p c]) \<and>
        attempt_success L url dest folder (g (failed_attempts L g disk url dest folder R))
          (disk (failed_attempts L g disk url dest folder R)) \<noteq> None \<and>
        fst (fst (download_one L g disk url dest folder t R)))"
proof (cases "failed_attempts L g disk url dest folder R = nat (R + 1)")
  case True
  let ?m = "failed_attempts L g disk url dest folder R"
  have all: "\<forall>k < ?m. attempt_success L url dest folder (g k) (disk k) = None"
    using failed_attempts_all by blast
  from True have "download_one L g disk url dest folder t R =
      ((False, None, if ?m = 0 then None
                     else Some (attempt_error L url dest folder (g (?m - 1)) (disk (?m - 1)))),
       backoff_trace L g disk url dest folder t [0..<?m])"
    using download_one_run [of L g disk url dest folder R t] by blast
  then show ?thesis
    using True all by (simp add: sleeps_backoff_trace)
next
  case False
  let ?m = "failed_attempts L g disk url dest folder R"
  have all: "\<forall>k < ?m. attempt_success L url dest folder (g k) (disk k) = None"
    using failed_attempts_all by blast
  from False have lt: "?m < nat (R + 1)"
    using failed_attempts_le [of L g disk url dest folder R] by simp
  then obtain ext content where
    ok: "attempt_success L url dest folder (g ?m) (disk ?m) = Some (ext, content)" and
    "download_one L g disk url dest folder t R =
       ((True, Some (dest @ ''.'' @ ext), None),
        backoff_trace L g disk url dest folder t [0..<?m] @
        [EGet url t, EWrite (os_path_join folder (dest @ ''.'' @ ext)) content])"
    using download_one_run [of L g disk url dest folder R t] by blast
  then show ?thesis
    using lt all by (simp add: sleeps_append sleeps_backoff_trace)
qed

theorem download_one_backoff_witness:
  "failed_attempts sample_libs always_jpeg folder_missing ''http://a/x'' ''bill 1'' ''nofolder'' 2
     = nat (2 + 1) \<and>
   sleeps (snd (download_one sample_libs always_jpeg folder_missing ''http://a/x'' ''bill 1''
                  ''nofolder'' 20 2))
     = map (\<lambda>k. 1 / 2 * (real k + 1)) [0..<3] \<and>
   \<not> fst (fst (download_one sample_libs always_jpeg folder_missing ''http://a/x'' ''bill 1''
                  ''nofolder'' 20 2)) \<and>
   failed_attempts sample_libs fails_then_png disk_ok ''http://a/x'' ''bill 1'' ''images'' 2
     < nat (2 + 1) \<and>
   sleeps (snd (download_one sample_libs fails_then_png disk_ok ''http://a/x'' ''bill 1''
                  ''images'' 20 2))
     = map (\<lambda>k. 1 / 2 * (real k + 1)) [0..<1] \<and>
   fst (fst (download_one sample_libs fails_then_png disk_ok ''http://a/x'' ''bill 1''
                  ''images'' 20 2))"
proof -
  have m3: "failed_attempts sample_libs always_jpeg folder_missing ''http://a/x'' ''bill 1''
              ''nofolder'' 2 = 3"
    by code_simp
  have m1: "failed_attempts sample_libs fails_then_png disk_ok ''http://a/x'' ''bill 1''
              ''images'' 2 = 1"
    by code_simp
  have a: "sleeps (snd (download_one sample_libs always_jpeg folder_missing ''http://a/x''
                  ''bill 1'' ''nofolder'' 20 2))
     = map (\<lambda>k. 1 / 2 * (real k + 1)) [0..<3] \<and>
   \<not> fst (fst (download_one sample_libs always_jpeg folder_missing ''http://a/x'' ''bill 1''
                  ''nofolder'' 20 2))"
    using download_one_backoff [of sample_libs always_jpeg folder_missing "''http://a/x''"
        "''bill 1''" "''nofolder''" 20 2] m3 by auto
  have b: "sleeps (snd (download_one sample_libs fails_then_png disk_ok ''http://a/x'' ''bill 1''
                  ''images'' 20 2))
     = map (\<lambda>k. 1 / 2 * (real k + 1)) [0..<1] \<and>
   fst (fst (download_one sample_libs fails_then_png disk_ok ''http://a/x'' ''bill 1''
                  ''images'' 20 2))"
    using download_one_backoff [of sample_libs fails_then_png disk_ok "''http://a/x''"
        "''bill 1''" "''images''" 20 2] m1 by auto
  from a b m3 m1 show ?thesis by simp
qed

lemma attempt_success_SomeD:
  assumes "attempt_success L url dest folder r dk = Some (ext, content)"
  shows "\<exists>header. r = Response 200 header content \<and>
           detect_extension L content (case header of Some v \<Rightarrow> v | None \<Rightarrow> []) url = Inr ext \<and>
           dk (os_path_join folder (dest @ ''.'' @ ext)) content = Written"
  using assms
  by (cases r)
     (auto simp: attempt_success_def split: if_splits sum.splits write_result.splits)

lemma os_path_join_relative:
  assumes "\<not> startswith b ''/''"
  shows "\<exists>sep. (sep = [] \<or> sep = ''/'') \<and> os_path_join a b = a @ sep @ b"
  using assms by (auto simp: os_path_join_def)

lemma startswith_append_slash:
  "\<not> startswith dest ''/'' \<Longrightarrow> \<not> startswith (dest @ ''.'' @ ext) ''/''"
  by (cases dest) simp_all

lemma broken_append: "broken (xs @ ys) = broken xs @ broken ys"
  by (induction xs rule: broken.induct) simp_all

lemma touched_no_broken: "broken tr = [] \<Longrightarrow> touched tr = writes tr"
  by (induction tr rule: touched.induct) simp_all

text \<open>
  C7, as stated: a call that returns failure has written no file at all. With
  \<open>max_retries = 0\<close>, a response with status 200 and a disk on which \<open>write\<close> raises
  after \<open>open\<close> has made the file, the call returns failure and leaves the file
  \<open>images/bill 1.jpg\<close> with the bytes written before the exception.
\<close>

theorem download_one_failure_leaves_file:
  "fst (download_one sample_libs always_jpeg disk_full ''http://a/x'' ''bill 1'' ''images'' 20 0)
     = (False, None, Some ''[Errno 28] No space left on device'') \<and>
   touched (snd (download_one sample_libs always_jpeg disk_full ''http://a/x'' ''bill 1''
                   ''images'' 20 0))
     = [(''images/bill 1.jpg'', [0xFF, 0xD8])]"
  by code_simp

text \<open>
  C7, amended: a call that returns success has written in full exactly one file: the
  path is \<open>os.path.join(folder, dest_name + "." + ext)\<close>, which for a destination
  name that does not start with a slash lies in the folder, and the content is the
  whole body of the response with status 200. A call that returns failure has written
  no file in full. When no write of the call raised after \<open>open\<close>, no other file is made
  or changed: exactly that one file on success, none on failure.
\<close>

theorem download_one_files:
  "(fst (fst (download_one L g disk url dest folder t R)) \<longrightarrow>
      (\<exists>k header content ext.
         k < nat (R + 1) \<and> g k = Response 200 header content \<and>
         detect_extension L content (case header of Some v \<Rightarrow> v | None \<Rightarrow> []) url = Inr ext \<and>
         fst (download_one L g disk url dest folder t R) = (True, Some (dest @ ''.'' @ ext), None) \<and>
         writes (snd (download_one L g disk url dest folder t R))
           = [(os_path_join folder (dest @ ''.'' @ ext), content)] \<and>
         (broken (snd (download_one L g disk url dest folder t R)) = [] \<longrightarrow>
            touched (snd (download_one L g disk url dest folder t R))
              = [(os_path_join folder (dest @ ''.'' @ ext), content)] \<and>
            files_after fs (touched (snd (download_one L g disk url dest folder t R)))
              = fs(os_path_join folder (dest @ ''.'' @ ext) \<mapsto> content)) \<and>
         (\<not> startswith dest ''/'' \<longrightarrow>
            (\<exists>sep. (sep = [] \<or> sep = ''/'') \<and>
               os_path_join folder (dest @ ''.'' @ ext) = folder @ sep @ dest @ ''.'' @ ext)))) \<and>
   (\<not> fst (fst (download_one L g disk url dest folder t R)) \<longrightarrow>
      writes (snd (download_one L g disk url dest folder t R)) = [] \<and>
      fst (snd (fst (download_one L g disk url dest folder t R))) = None \<and>
      (broken (snd (download_one L g disk url dest folder t R)) = [] \<longrightarrow>
         touched (snd (download_one L g disk url dest folder t R)) = [] \<and>
         files_after fs (touched (snd (download_one L g disk url dest folder t R))) = fs))"
proof (cases "failed_attempts L g disk url dest folder R = nat (R + 1)")
  case True
  let ?m = "failed_attempts L g disk url dest folder R"
  let ?D = "download_one L g disk url dest folder t R"
  from True have run: "?D =
      ((False, None, if ?m = 0 then None
                     else Some (attempt_error L url dest folder (g (?m - 1)) (disk (?m - 1)))),
       backoff_trace L g disk url dest folder t [0..<?m])"
    using download_one_run [of L g disk url dest folder R t] by blast
  have n: "\<not> fst (fst ?D)" unfolding run by simp
  have w: "writes (snd ?D) = []" unfolding run by (simp add: writes_backoff_trace)
  have e: "fst (snd (fst ?D)) = None" unfolding run by simp
  have tb: "broken (snd ?D) = [] \<longrightarrow> touched (snd ?D) = [] \<and> files_after fs (touched (snd ?D)) = fs"
    using touched_no_broken [of "snd ?D"] w by simp
  have second: "\<not> fst (fst ?D) \<longrightarrow>
      writes (snd ?D) = [] \<and> fst (snd (fst ?D)) = None \<and>
      (broken (snd ?D) = [] \<longrightarrow> touched (snd ?D) = [] \<and> files_after fs (touched (snd ?D)) = fs)"
    using w e tb by simp
  from n second show ?thesis by simp
next
  case False
  let ?m = "failed_attempts L g disk url dest folder R"
  let ?D = "download_one L g disk url dest folder t R"
  from False have lt: "?m < nat (R + 1)"
    using failed_attempts_le [of L g disk url dest folder R] by simp
  then obtain ext content
    where ok: "attempt_success L url dest folder (g ?m) (disk ?m) = Some (ext, content)"
    and run: "?D =
       ((True, Some (dest @ ''.'' @ ext), None),
        backoff_trace L g disk url dest folder t [0..<?m] @
        [EGet url t, EWrite (os_path_join folder (dest @ ''.'' @ ext)) content])"
    using download_one_run [of L g disk url dest folder R t] by blast
  let ?path = "os_path_join folder (dest @ ''.'' @ ext)"
  from attempt_success_SomeD [OF ok] obtain header where
    resp: "g ?m = Response 200 header content"
    and det: "detect_extension L content (case header of Some v \<Rightarrow> v | None \<Rightarrow> []) url = Inr ext"
    by blast
  have w: "writes (snd ?D) = [(?path, content)]"
    unfolding run by (simp add: writes_append writes_backoff_trace)
  have tb: "broken (snd ?D) = [] \<longrightarrow>
      touched (snd ?D) = [(?path, content)] \<and>
      files_after fs (touched (snd ?D)) = fs(?path \<mapsto> content)"
    using touched_no_broken [of "snd ?D"] w by simp
  have rel: "\<not> startswith dest ''/'' \<longrightarrow>
            (\<exists>sep. (sep = [] \<or> sep = ''/'') \<and> ?path = folder @ sep @ dest @ ''.'' @ ext)"
  proof
    assume "\<not> startswith dest ''/''"
    then have "\<not> startswith (dest @ ''.'' @ ext) ''/''" by (rule startswith_append_slash)
    then show "\<exists>sep. (sep = [] \<or> sep = ''/'') \<and> ?path = folder @ sep @ dest @ ''.'' @ ext"
      by (rule os_path_join_relative)
  qed
  have s: "fst (fst ?D)" unfolding run by simp
  have f: "fst ?D = (True, Some (dest @ ''.'' @ ext), None)" unfolding run by simp
  have ex: "\<exists>k header content ext.
         k < nat (R + 1) \<and> g k = Response 200 header content \<and>
         detect_extension L content (case header of Some v \<Rightarrow> v | None \<Rightarrow> []) url = Inr ext \<and>
         fst ?D = (True, Some (dest @ ''.'' @ ext), None) \<and>
         writes (snd ?D) = [(os_path_join folder (dest @ ''.'' @ ext), content)] \<and>
         (broken (snd ?D) = [] \<longrightarrow>
            touched (snd ?D) = [(os_path_join folder (dest @ ''.'' @ ext), content)] \<and>
            files_after fs (touched (snd ?D))
              = fs(os_path_join folder (dest @ ''.'' @ ext) \<mapsto> content)) \<and>
         (\<not> startswith dest ''/'' \<longrightarrow>
            (\<exists>sep. (sep = [] \<or> sep = ''/'') \<and>
               os_path_join folder (dest @ ''.'' @ ext) = folder @ sep @ dest @ ''.'' @ ext))"
    using lt resp det f w tb rel
    by (intro exI [of _ ?m] exI [of _ header] exI [of _ content] exI [of _ ext] conjI)
  from s ex show ?thesis by simp
qed

theorem download_one_files_witness:
  "fst (fst (download_one sample_libs fails_then_png disk_ok ''http://a/x'' ''bill 1'' ''images''
               20 2)) \<and>
   broken (snd (download_one sample_libs fails_then_png disk_ok ''http://a/x'' ''bill 1''
                  ''images'' 20 2)) = [] \<and>
   touched (snd (download_one sample_libs fails_then_png disk_ok ''http://a/x'' ''bill 1''
                   ''images'' 20 2))
     = [(''images/bill 1.png'', png_2x2)] \<and>
   \<not> fst (fst (download_one sample_libs always_jpeg folder_missing ''http://a/x'' ''bill 1''
                 ''nofolder'' 20 2)) \<and>
   broken (snd (download_one sample_libs always_jpeg folder_missing ''http://a/x'' ''bill 1''
                  ''nofolder'' 20 2)) = [] \<and>
   touched (snd (download_one sample_libs always_jpeg folder_missing ''http://a/x'' ''bill 1''
                   ''nofolder'' 20 2)) = []"
proof -
  let ?A = "download_one sample_libs fails_then_png disk_ok ''http://a/x'' ''bill 1'' ''images''
              20 2"
  let ?B = "download_one sample_libs always_jpeg folder_missing ''http://a/x'' ''bill 1''
              ''nofolder'' 20 2"
  have ok: "fst (fst ?A)" by code_simp
  have nb: "broken (snd ?A) = []" by code_simp
  have name: "fst ?A = (True, Some ''bill 1.png'', None)" by code_simp
  have j: "os_path_join ''images'' ''bill 1.png'' = ''images/bill 1.png''" by code_simp
  have bad: "\<not> fst (fst ?B)" by code_simp
  have nb2: "broken (snd ?B) = []" by code_simp
  have a: "touched (snd ?A) = [(''images/bill 1.png'', png_2x2)]"
  proof -
    from download_one_files [of sample_libs fails_then_png disk_ok "''http://a/x''" "''bill 1''"
        "''images''" 20 2 Map.empty] ok
    obtain k header content ext where
      k: "fails_then_png k = Response 200 header content"
      and n: "fst ?A = (True, Some (''bill 1'' @ ''.'' @ ext), None)"
      and w: "broken (snd ?A) = [] \<longrightarrow>
                touched (snd ?A) = [(os_path_join ''images'' (''bill 1'' @ ''.'' @ ext), content)] \<and>
                files_after Map.empty (touched (snd ?A))
                  = Map.empty(os_path_join ''images'' (''bill 1'' @ ''.'' @ ext) \<mapsto> content)"
      by blast
    from n name have "ext = ''png''" by simp
    moreover from k have "content = png_2x2"
      by (simp add: fails_then_png_def split: if_splits)
    ultimately show ?thesis using w nb j by simp
  qed
  have b: "touched (snd ?B) = []"
    using download_one_files [of sample_libs always_jpeg folder_missing "''http://a/x''"
        "''bill 1''" "''nofolder''" 20 2 Map.empty] bad nb2 by blast
  from ok nb a bad nb2 b show ?thesis by blast
qed

section \<open>Properties of the Download Coordinator\<close>

lemma dispatch_loop_names:
  "dispatch_loop counter urls submitted =
     submitted @ map (\<lambda>i. (urls ! i, ''bill '' @ str_int (counter + 1 + int i))) [0..<length urls]"
proof (induction urls arbitrary: counter submitted)
  case Nil
  then show ?case by simp
next
  case (Cons u us)
  have "map (\<lambda>i. ((u # us) ! i, ''bill '' @ str_int (counter + 1 + int i))) [0..<Suc (length us)]
      = (u, ''bill '' @ str_int (counter + 1))
        # map (\<lambda>i. (us ! i, ''bill '' @ str_int (counter + 1 + 1 + int i))) [0..<length us]"
    unfolding map_upt_Suc by (simp add: algebra_simps)
  then show ?case
    by (simp add: Cons.IH Let_def)
qed

lemma dispatch_names:
  "dispatch start_index urls =
     map (\<lambda>i. (urls ! i, ''bill '' @ str_int (start_index + int i))) [0..<length urls]"
  by (simp add: dispatch_def dispatch_loop_names)

lemma collect_results:
  assumes "\<forall>i \<in> set order. i < length futs"
  shows "results (collect futs order st)
           = results st @ map (\<lambda>i. row_of (fst (futs ! i)) (snd (futs ! i))) order \<and>
         done_count (collect futs order st) = done_count st + length order"
  using assms
proof (induction order arbitrary: st)
  case Nil
  then show ?case by simp
next
  case (Cons i order)
  then have i: "i < length futs" and rest: "\<forall>i \<in> set order. i < length futs" by simp_all
  obtain url success final_name error where f: "futs ! i = (url, (success, final_name, error))"
    by (metis prod_cases4)
  show ?case
  proof (cases success)
    case True
    then show ?thesis using i f Cons.IH [OF rest] by simp
  next
    case False
    then show ?thesis using i f Cons.IH [OF rest] by simp
  qed
qed

lemma run_downloads_results:
  assumes "\<forall>i \<in> set order. i < length urls"
  shows "results (run_downloads L net disks urls folder t R S order) =
     map (\<lambda>i. row_of (urls ! i)
            (fst (download_one L (net (urls ! i)) (disks (urls ! i)) (urls ! i)
                    (''bill '' @ str_int (S + int i)) folder t R))) order"
proof -
  let ?futs = "map (\<lambda>(url, dest_name).
                   (url, fst (download_one L (net url) (disks url) url dest_name folder t R)))
                 (dispatch S urls)"
  have len: "length ?futs = length urls" by (simp add: dispatch_names)
  have nth: "\<And>i. i < length urls \<Longrightarrow>
      ?futs ! i = (urls ! i, fst (download_one L (net (urls ! i)) (disks (urls ! i)) (urls ! i)
                    (''bill '' @ str_int (S + int i)) folder t R))"
    by (simp add: dispatch_names)
  have "\<forall>i \<in> set order. i < length ?futs" using assms len by simp
  from collect_results [OF this, of "\<lparr> results = [], done_count = 0, log_lines = [] \<rparr>"]
  have "results (run_downloads L net disks urls folder t R S order)
      = map (\<lambda>i. row_of (fst (?futs ! i)) (snd (?futs ! i))) order"
    by (simp add: run_downloads_def Let_def)
  also have "\<dots> = map (\<lambda>i. row_of (urls ! i)
            (fst (download_one L (net (urls ! i)) (disks (urls ! i)) (urls ! i)
                    (''bill '' @ str_int (S + int i)) folder t R))) order"
    by (rule map_cong [OF refl]) (use assms nth in simp)
  finally show ?thesis .
qed

text \<open>
  C1. For a URL list of length \<open>M\<close> and a start index \<open>S\<close>, the dispatch loop gives the
  names \<open>bill S\<close>, \<open>bill S+1\<close>, ..., \<open>bill S+M-1\<close> to the URLs in the order of the list.
  The names do not depend on the order of completion: whatever that order, the row
  collected for the URL at position \<open>i\<close> of the list is the outcome of the call made
  with the name \<open>bill S+i\<close>.
\<close>

theorem dispatch_names_in_input_order:
  "dispatch S urls
     = map (\<lambda>i. (urls ! i, ''bill '' @ str_int (S + int i))) [0..<length urls] \<and>
   (mset order = mset [0..<length urls] \<longrightarrow>
      results (run_downloads L net disks urls folder t R S order) =
        map (\<lambda>i. row_of (urls ! i)
               (fst (download_one L (net (urls ! i)) (disks (urls ! i)) (urls ! i)
                       (''bill '' @ str_int (S + int i)) folder t R))) order)"
proof (intro conjI impI)
  show "dispatch S urls
     = map (\<lambda>i. (urls ! i, ''bill '' @ str_int (S + int i))) [0..<length urls]"
    by (rule dispatch_names)
next
  assume "mset order = mset [0..<length urls]"
  then have "set order = set [0..<length urls]" by (rule mset_eq_setD)
  then have "\<forall>i \<in> set order. i < length urls" by simp
  then show "results (run_downloads L net disks urls folder t R S order) =
        map (\<lambda>i. row_of (urls ! i)
               (fst (download_one L (net (urls ! i)) (disks (urls ! i)) (urls ! i)
                       (''bill '' @ str_int (S + int i)) folder t R))) order"
    by (rule run_downloads_results)
qed

theorem dispatch_names_in_input_order_witness:
  "mset [1, 0] = mset [0..<length two_urls] \<and>
   dispatch 9 two_urls = [(''http://a/x.jpg'', ''bill 9''), (''http://a/missing'', ''bill 10'')] \<and>
   results (run_downloads sample_libs two_urls_net two_urls_disks two_urls ''images'' 20 2 9 [1, 0]) =
     [(''http://a/missing'', None, False, Some ''HTTP 404''),
      (''http://a/x.jpg'', Some ''bill 9.jpg'', True, None)]"
proof -
  have len: "length two_urls = 2" by (simp add: two_urls_def)
  have p: "mset [1, 0] = mset [0..<length two_urls]"
    unfolding len by (simp add: upt_rec numeral_2_eq_2)
  have d: "map (\<lambda>i. (two_urls ! i, ''bill '' @ str_int (9 + int i))) [0..<length two_urls]
      = [(''http://a/x.jpg'', ''bill 9''), (''http://a/missing'', ''bill 10'')]"
    by code_simp
  have r: "map (\<lambda>i. row_of (two_urls ! i)
               (fst (download_one sample_libs (two_urls_net (two_urls ! i)) (two_urls_disks (two_urls ! i))
                       (two_urls ! i)
                       (''bill '' @ str_int (9 + int i)) ''images'' 20 2))) [1, 0]
     = [(''http://a/missing'', None, False, Some ''HTTP 404''),
        (''http://a/x.jpg'', Some ''bill 9.jpg'', True, None)]"
    by code_simp
  from dispatch_names_in_input_order [of 9 two_urls "[1, 0]" sample_libs two_urls_net
      two_urls_disks
      "''images''" 20 2] p d r
  show ?thesis by simp
qed

lemma fst_row_of: "fst (row_of url out) = url"
  by (cases out) simp

lemma count_results_url:
  assumes "distinct urls" and "mset order = mset [0..<length urls]" and "u \<in> set urls"
  shows "length (filter (\<lambda>i. urls ! i = u) order) = 1"
proof -
  let ?f = "\<lambda>i. urls ! i"
  have m: "mset (map ?f order) = mset urls"
  proof -
    have "mset (map ?f order) = image_mset ?f (mset order)" by simp
    also have "\<dots> = image_mset ?f (mset [0..<length urls])" by (simp only: assms(2))
    also have "\<dots> = mset (map ?f [0..<length urls])" by simp
    also have "\<dots> = mset urls" by (simp only: map_nth)
    finally show ?thesis .
  qed
  have "count (mset urls) u = 1" using assms(1,3) by (simp add: distinct_count_atmost_1)
  then have "count (mset (map ?f order)) u = 1" by (simp only: m)
  then have "length (filter ((=) u) (map ?f order)) = 1"
    by (simp only: count_mset count_list_eq_length_filter)
  moreover have "length (filter ((=) u) (map ?f order))
      = length (filter (\<lambda>i. urls ! i = u) order)"
    by (induction order) auto
  ultimately show ?thesis by simp
qed

lemma length_filter_split:
  "length (filter (\<lambda>r. P r \<and> Q r) xs) + length (filter (\<lambda>r. P r \<and> \<not> Q r) xs)
     = length (filter P xs)"
  by (induction xs) auto

text \<open>
  C8. At the end of a run over a deduplicated list, with every future collected once,
  there is one result per URL: the successes and the failures together number the
  length of the list, and every URL of the list has exactly one row, either among the
  successes or among the failures.
\<close>

theorem run_downloads_partition:
  assumes "distinct urls" and "mset order = mset [0..<length urls]"
  shows "length (results (run_downloads L net disks urls folder t R S order)) = length urls \<and>
         succ (run_downloads L net disks urls folder t R S order)
           + fail (run_downloads L net disks urls folder t R S order) = length urls \<and>
         (\<forall>u \<in> set urls.
            length (filter (\<lambda>r. fst r = u \<and> fst (snd (snd r)))
                      (results (run_downloads L net disks urls folder t R S order)))
            + length (filter (\<lambda>r. fst r = u \<and> \<not> fst (snd (snd r)))
                      (results (run_downloads L net disks urls folder t R S order))) = 1)"
proof -
  let ?f = "\<lambda>i. row_of (urls ! i)
               (fst (download_one L (net (urls ! i)) (disks (urls ! i)) (urls ! i)
                       (''bill '' @ str_int (S + int i)) folder t R))"
  let ?res = "results (run_downloads L net disks urls folder t R S order)"
  from assms(2) have "set order = set [0..<length urls]" by (rule mset_eq_setD)
  then have "\<forall>i \<in> set order. i < length urls" by simp
  then have res: "?res = map ?f order" by (rule run_downloads_results)
  have "length order = length [0..<length urls]"
    using assms(2) by (rule mset_eq_length)
  then have len: "length ?res = length urls" by (simp add: res)
  have sf: "succ (run_downloads L net disks urls folder t R S order)
           + fail (run_downloads L net disks urls folder t R S order) = length ?res"
    unfolding succ_def fail_def by (rule sum_length_filter_compl)
  have each: "\<forall>u \<in> set urls.
            length (filter (\<lambda>r. fst r = u \<and> fst (snd (snd r))) ?res)
            + length (filter (\<lambda>r. fst r = u \<and> \<not> fst (snd (snd r))) ?res) = 1"
  proof
    fix u assume u: "u \<in> set urls"
    have "length (filter (\<lambda>r. fst r = u) ?res) = length (filter ((\<lambda>r. fst r = u) \<circ> ?f) order)"
      unfolding res by (simp add: filter_map)
    also have "filter ((\<lambda>r. fst r = u) \<circ> ?f) order = filter (\<lambda>i. urls ! i = u) order"
      by (rule filter_cong) (simp_all add: fst_row_of)
    also have "length \<dots> = 1" using assms u by (rule count_results_url)
    finally show "length (filter (\<lambda>r. fst r = u \<and> fst (snd (snd r))) ?res)
            + length (filter (\<lambda>r. fst r = u \<and> \<not> fst (snd (snd r))) ?res) = 1"
      by (simp only: length_filter_split)
  qed
  from len sf each show ?thesis by simp
qed

theorem run_downloads_partition_witness:
  "distinct two_urls \<and> mset [1, 0] = mset [0..<length two_urls] \<and>
   length (results (run_downloads sample_libs two_urls_net two_urls_disks two_urls ''images'' 20 0 1 [1, 0])) = 2 \<and>
   succ (run_downloads sample_libs two_urls_net two_urls_disks two_urls ''images'' 20 0 1 [1, 0])
     + fail (run_downloads sample_libs two_urls_net two_urls_disks two_urls ''images'' 20 0 1 [1, 0]) = 2 \<and>
   length (filter (\<lambda>r. fst r = ''http://a/missing'' \<and> fst (snd (snd r)))
             (results (run_downloads sample_libs two_urls_net two_urls_disks two_urls ''images'' 20 0 1 [1, 0])))
   + length (filter (\<lambda>r. fst r = ''http://a/missing'' \<and> \<not> fst (snd (snd r)))
             (results (run_downloads sample_libs two_urls_net two_urls_disks two_urls ''images'' 20 0 1 [1, 0]))) = 1"
proof -
  have len: "length two_urls = 2" by (simp add: two_urls_def)
  have d: "distinct two_urls" by (simp add: two_urls_def)
  have p: "mset [1, 0] = mset [0..<length two_urls]"
    unfolding len by (simp add: upt_rec numeral_2_eq_2)
  have u: "''http://a/missing'' \<in> set two_urls" by (simp add: two_urls_def)
  from run_downloads_partition [OF d p, of sample_libs two_urls_net two_urls_disks
      "''images''" 20 0 1] u len d p
  show ?thesis by simp
qed

end
